theory Spec2Isabelle
  imports Complex_Main
begin

section \<open>Data model\<close>

text \<open>
  The notebooks compute probabilities over two kinds of sample space. A Python
  \<^verbatim>\<open>set\<close> of outcomes is modelled by the list of its elements in iteration
  order (a set holds no element twice, so the list is \<open>distinct\<close>); a Python
  \<^verbatim>\<open>dict\<close> from outcomes to integer weights is modelled by its items in
  insertion order (no key twice). Python integers are unbounded, hence \<open>int\<close>.

  The operator \<^verbatim>\<open>/\<close> on two Python integers raises
  \<^verbatim>\<open>ZeroDivisionError\<close> on a zero divisor, raises \<^verbatim>\<open>OverflowError\<close>
  when the quotient is too large for a double, and otherwise returns the double
  nearest to the exact quotient. The model has both errors and returns the
  exact quotient as a rational number; the rounding to a double is not
  modelled.
\<close>

datatype py_error = ZeroDivisionError | KeyError | OverflowError

datatype 'a sample_space = PySet "'a list" | PyDict "('a \<times> int) list"

text \<open>\<^verbatim>\<open>for outcome in sample_space\<close>: a set yields its elements, a dict its keys.\<close>

fun iterate :: "'a sample_space \<Rightarrow> 'a list" where
  "iterate (PySet xs) = xs"
| "iterate (PyDict kvs) = map fst kvs"

text \<open>\<^verbatim>\<open>set(some_list)\<close>: the elements of the list, each once.\<close>

definition py_set :: "'a list \<Rightarrow> 'a list" where
  "py_set xs = remdups xs"

text \<open>
  The least magnitude that does not round to a finite double: halfway between
  the largest double, \<open>2 ^ 1024 - 2 ^ 971\<close>, and \<open>2 ^ 1024\<close> (rounding is to
  nearest, ties to even, and the tie goes up).
\<close>

definition float_overflow :: rat where
  "float_overflow = 2 ^ 1024 - 2 ^ 970"

text \<open>
  \<^verbatim>\<open>a / b\<close> on integers: the divisor is tested first, then the size of the
  quotient.
\<close>

definition true_div :: "int \<Rightarrow> int \<Rightarrow> py_error + rat" where
  "true_div a b =
     (if b = 0 then Inl ZeroDivisionError
      else if float_overflow \<le> \<bar>of_int a / of_int b\<bar> then Inl OverflowError
      else Inr (of_int a / of_int b))"

text \<open>\<^verbatim>\<open>d[k]\<close> on a dict: the value stored under the key, or \<^verbatim>\<open>KeyError\<close>.\<close>

definition getitem :: "('a \<times> int) list \<Rightarrow> 'a \<Rightarrow> py_error + int" where
  "getitem d k = (case map_of d k of None \<Rightarrow> Inl KeyError | Some v \<Rightarrow> Inr v)"

text \<open>
  \<^verbatim>\<open>sum(d[outcome] for outcome in event)\<close>: the generator is consumed from
  the left, starting from 0; the first failing lookup aborts the sum.
\<close>

fun sum_items :: "('a \<times> int) list \<Rightarrow> int \<Rightarrow> 'a list \<Rightarrow> py_error + int" where
  "sum_items d acc [] = Inr acc"
| "sum_items d acc (k # ks) =
     (case getitem d k of
        Inl e \<Rightarrow> Inl e
      | Inr w \<Rightarrow> sum_items d (acc + w) ks)"

section \<open>Events and their probabilities\<close>

text \<open>
  \<^verbatim>\<open>
  def get_matching_event(event_condition, sample_space):
      return set([outcome for outcome in sample_space if event_condition(outcome)])
  \<close>
\<close>

definition get_matching_event :: "('a \<Rightarrow> bool) \<Rightarrow> 'a sample_space \<Rightarrow> 'a list" where
  "get_matching_event event_condition sample_space =
     py_set (filter event_condition (iterate sample_space))"

text \<open>
  \<^verbatim>\<open>
  def compute_event_probability(event_condition, generic_sample_space):
      event = get_matching_event(event_condition, generic_sample_space)
      if type(generic_sample_space) == type(set()):
          return len(event)/len(generic_sample_space)
      event_size = sum(generic_sample_space[outcome] for outcome in event)
      return event_size / sum(generic_sample_space.values())
  \<close>
\<close>

definition compute_event_probability ::
    "('a \<Rightarrow> bool) \<Rightarrow> 'a sample_space \<Rightarrow> py_error + rat" where
  "compute_event_probability event_condition generic_sample_space =
     (let event = get_matching_event event_condition generic_sample_space in
      case generic_sample_space of
        PySet xs \<Rightarrow> true_div (int (length event)) (int (length xs))
      | PyDict kvs \<Rightarrow>
          (case sum_items kvs 0 event of
             Inl e \<Rightarrow> Inl e
           | Inr event_size \<Rightarrow> true_div event_size (sum_list (map snd kvs))))"

text \<open>
  \<^verbatim>\<open>
  def is_in_interval(number, minimum, maximum):
      return minimum <= number <= maximum
  \<close>
\<close>

definition is_in_interval :: "int \<Rightarrow> int \<Rightarrow> int \<Rightarrow> bool" where
  "is_in_interval number minimum maximum = (minimum \<le> number \<and> number \<le> maximum)"

text \<open>
  \<^verbatim>\<open>
  def frequency_heads(coin_flip_sequence):
      total_heads = len([head for head in coin_flip_sequence if head == 1])
      return total_heads / len(coin_flip_sequence)
  \<close>
\<close>

definition frequency_heads :: "int list \<Rightarrow> py_error + rat" where
  "frequency_heads coin_flip_sequence =
     (let total_heads = length (filter (\<lambda>head. head = 1) coin_flip_sequence) in
      true_div (int total_heads) (int (length coin_flip_sequence)))"

section \<open>Building sample spaces\<close>

text \<open>
  \<^verbatim>\<open>product(xs, repeat=n)\<close> enumerates the length-\<open>n\<close> tuples over \<open>xs\<close>, the
  last position varying fastest, which is the order of \<^const>\<open>product_lists\<close>.
\<close>

definition product_repeat :: "'a list \<Rightarrow> nat \<Rightarrow> 'a list list" where
  "product_repeat xs n = product_lists (replicate n xs)"

text \<open>
  \<^verbatim>\<open>weighted_sample_space[key] += 1\<close> on a \<^verbatim>\<open>defaultdict(int)\<close>: a key that
  is absent is first inserted (at the end) with the value 0, then the value is
  replaced in place by its successor.
\<close>

fun setitem :: "('a \<times> int) list \<Rightarrow> 'a \<Rightarrow> int \<Rightarrow> ('a \<times> int) list" where
  "setitem [] k v = [(k, v)]"
| "setitem ((k', v') # d) k v = (if k' = k then (k, v) # d else (k', v') # setitem d k v)"

definition getitem_default :: "('a \<times> int) list \<Rightarrow> 'a \<Rightarrow> int" where
  "getitem_default d k = (case map_of d k of None \<Rightarrow> 0 | Some v \<Rightarrow> v)"

definition increment :: "('a \<times> int) list \<Rightarrow> 'a \<Rightarrow> ('a \<times> int) list" where
  "increment d k = setitem d k (getitem_default d k + 1)"

text \<open>
  \<^verbatim>\<open>
  def generate_coin_sample_space(num_flips=10):
      weighted_sample_space = defaultdict(int)
      for coin_flips in product(['Heads', 'Tails'], repeat=num_flips):
          heads_count = len([outcome for outcome in coin_flips if outcome == 'Heads'])
          weighted_sample_space[heads_count] += 1
      return weighted_sample_space
  \<close>
\<close>

definition heads_count :: "string list \<Rightarrow> int" where
  "heads_count coin_flips = int (length (filter (\<lambda>outcome. outcome = ''Heads'') coin_flips))"

definition generate_coin_sample_space :: "nat \<Rightarrow> (int \<times> int) list" where
  "generate_coin_sample_space num_flips =
     fold (\<lambda>coin_flips weighted_sample_space.
             increment weighted_sample_space (heads_count coin_flips))
          (product_repeat [''Heads'', ''Tails''] num_flips) []"

text \<open>
  \<^verbatim>\<open>
  possible_rolls = list(range(1,7))
  sample_space = set(product(possible_rolls, repeat=6))
  def has_sum_of_21(outcome):
      return sum(outcome) == 21
  \<close>
\<close>

definition possible_rolls :: "int list" where
  "possible_rolls = [1, 2, 3, 4, 5, 6]"

definition die_sample_space :: "int list sample_space" where
  "die_sample_space = PySet (py_set (product_repeat possible_rolls 6))"

definition has_sum_of_21 :: "int list \<Rightarrow> bool" where
  "has_sum_of_21 outcome = (sum_list outcome = 21)"

text \<open>
  The number of sequences of \<open>n\<close> rolls that sum to \<open>s\<close>, by cases on the first
  roll. It counts the outcomes of an event of the die space without enumerating
  the space.
\<close>

fun roll_sums :: "nat \<Rightarrow> int \<Rightarrow> nat" where
  "roll_sums 0 s = (if s = 0 then 1 else 0)"
| "roll_sums (Suc n) s =
     roll_sums n (s - 1) + roll_sums n (s - 2) + roll_sums n (s - 3) +
     roll_sums n (s - 4) + roll_sums n (s - 5) + roll_sums n (s - 6)"

section \<open>Invariants of the data model\<close>

text \<open>
  A sample space is a set of unique outcomes, or a mapping from unique outcomes to
  positive integer weights (an outcome of weight 0 is absent rather than stored).
\<close>

fun valid_space :: "'a sample_space \<Rightarrow> bool" where
  "valid_space (PySet xs) = distinct xs"
| "valid_space (PyDict kvs) = (distinct (map fst kvs) \<and> list_all (\<lambda>w. 0 < w) (map snd kvs))"

text \<open>The total measure of a space: its size, or the sum of its weights.\<close>

fun total_measure :: "'a sample_space \<Rightarrow> int" where
  "total_measure (PySet xs) = int (length xs)"
| "total_measure (PyDict kvs) = sum_list (map snd kvs)"

section \<open>Matching events\<close>

lemma set_get_matching_event:
  "set (get_matching_event c sp) = {x \<in> set (iterate sp). c x}"
  by (simp add: get_matching_event_def py_set_def)

lemma distinct_get_matching_event: "distinct (get_matching_event c sp)"
  by (simp add: get_matching_event_def py_set_def)

lemma getitem_key: "k \<in> fst ` set d \<Longrightarrow> getitem d k = Inr (the (map_of d k))"
  by (auto simp: getitem_def map_of_eq_None_iff split: option.splits)

lemma sum_items_keys:
  "set ks \<subseteq> fst ` set d \<Longrightarrow>
   sum_items d acc ks = Inr (acc + sum_list (map (\<lambda>k. the (map_of d k)) ks))"
  by (induction ks arbitrary: acc) (simp_all add: getitem_key)

lemma sum_list_values:
  "distinct (map fst d) \<Longrightarrow> sum_list (map snd d) = (\<Sum>k\<in>fst ` set d. the (map_of d k))"
proof -
  assume d: "distinct (map fst d)"
  have "\<And>p. p \<in> set d \<Longrightarrow> the (map_of d (fst p)) = snd p"
    using d by (metis map_of_is_SomeI option.sel prod.collapse)
  then have "map snd d = map (\<lambda>k. the (map_of d k)) (map fst d)"
    by simp
  then have "sum_list (map snd d) = sum_list (map (\<lambda>k. the (map_of d k)) (map fst d))"
    by (rule arg_cong)
  also have "\<dots> = (\<Sum>k\<in>set (map fst d). the (map_of d k))"
    using d by (rule sum_list_distinct_conv_sum_set)
  finally show ?thesis by simp
qed

lemma event_size_dict:
  "sum_items d 0 (get_matching_event c (PyDict d)) =
     Inr (\<Sum>k\<in>{k \<in> fst ` set d. c k}. the (map_of d k))"
proof -
  let ?ev = "get_matching_event c (PyDict d)"
  have s: "set ?ev = {k \<in> fst ` set d. c k}"
    by (simp add: set_get_matching_event)
  then have "set ?ev \<subseteq> fst ` set d" by blast
  then have "sum_items d 0 ?ev = Inr (0 + sum_list (map (\<lambda>k. the (map_of d k)) ?ev))"
    by (rule sum_items_keys)
  also have "sum_list (map (\<lambda>k. the (map_of d k)) ?ev) = (\<Sum>k\<in>set ?ev. the (map_of d k))"
    by (rule sum_list_distinct_conv_sum_set) (rule distinct_get_matching_event)
  finally show ?thesis by (simp add: s)
qed

lemma event_length_set:
  "distinct xs \<Longrightarrow> length (get_matching_event c (PySet xs)) = card {x \<in> set xs. c x}"
  by (metis distinct_card distinct_get_matching_event set_get_matching_event iterate.simps(1))

text \<open>
  Claim C4. The event returned by \<open>get_matching_event\<close> is a set (no outcome
  twice) whose members are exactly the outcomes of the space that satisfy the
  condition: the elements of a set-form space, the keys (not the weights) of a
  mapping-form space.
\<close>

theorem get_matching_event_exact:
  "distinct (get_matching_event c (PySet xs)) \<and>
   distinct (get_matching_event c (PyDict kvs)) \<and>
   (x \<in> set (get_matching_event c (PySet xs)) \<longleftrightarrow> x \<in> set xs \<and> c x) \<and>
   (x \<in> set (get_matching_event c (PyDict kvs)) \<longleftrightarrow> x \<in> fst ` set kvs \<and> c x)"
  by (simp add: set_get_matching_event distinct_get_matching_event)

section \<open>The probability of an event\<close>

lemma true_div_zero: "true_div a 0 = Inl ZeroDivisionError"
  by (simp add: true_div_def)

lemma float_overflow_gt_1: "1 < float_overflow"
proof -
  have "(2::rat) ^ 970 * 2 \<le> 2 ^ 970 * 2 ^ 54"
    by (intro mult_left_mono) simp_all
  then have "(2::rat) ^ 970 + 2 ^ 970 \<le> 2 ^ 1024"
    by (simp add: power_add [symmetric])
  moreover have "(1::rat) < 2 ^ 970"
    by (rule one_less_power) simp_all
  ultimately show ?thesis
    by (simp add: float_overflow_def)
qed

text \<open>A quotient between 0 and 1 is returned as it is.\<close>

lemma true_div_fraction:
  assumes "0 \<le> a" "a \<le> t" "0 < t"
  shows "true_div a t = Inr (of_int a / of_int t)"
proof -
  have "0 \<le> (of_int a :: rat) / of_int t"
    using assms by simp
  moreover have "(of_int a :: rat) / of_int t \<le> 1"
    using assms by simp
  ultimately have "\<bar>(of_int a :: rat) / of_int t\<bar> < float_overflow"
    using float_overflow_gt_1 by linarith
  then show ?thesis
    using assms(3) by (simp add: true_div_def)
qed

lemma cep_set:
  "compute_event_probability c (PySet xs) =
     true_div (int (length (get_matching_event c (PySet xs)))) (int (length xs))"
  by (simp add: compute_event_probability_def)

lemma cep_dict:
  "compute_event_probability c (PyDict kvs) =
     true_div (\<Sum>k\<in>{k \<in> fst ` set kvs. c k}. the (map_of kvs k)) (sum_list (map snd kvs))"
  by (simp add: compute_event_probability_def event_size_dict)

lemma weight_of_key:
  "distinct (map fst kvs) \<Longrightarrow> k \<in> fst ` set kvs \<Longrightarrow> the (map_of kvs k) \<in> set (map snd kvs)"
  by (metis (no_types, lifting) image_iff list.set_map map_of_is_SomeI option.sel prod.collapse)

lemma positive_total:
  fixes kvs :: "('a \<times> int) list"
  assumes "kvs \<noteq> []" "list_all (\<lambda>w. 0 < w) (map snd kvs)"
  shows "0 < sum_list (map snd kvs)"
proof (cases kvs)
  case Nil
  with assms(1) show ?thesis by simp
next
  case (Cons p ps)
  have "0 \<le> sum_list (map snd ps)"
    using assms(2) Cons by (intro sum_list_nonneg) (auto simp: list_all_iff)
  moreover have "0 < snd p"
    using assms(2) Cons by simp
  ultimately show ?thesis
    using Cons by simp
qed

lemma total_measure_pos:
  "valid_space sp \<Longrightarrow> iterate sp \<noteq> [] \<Longrightarrow> 0 < total_measure sp"
  by (cases sp) (auto simp: positive_total)

text \<open>The measure of the event of a condition, as the code computes it.\<close>

lemma event_measure_mono:
  fixes kvs :: "('a \<times> int) list"
  assumes "distinct (map fst kvs)" "list_all (\<lambda>w. 0 < w) (map snd kvs)" "\<And>k. c k \<Longrightarrow> c' k"
  shows "(\<Sum>k\<in>{k \<in> fst ` set kvs. c k}. the (map_of kvs k))
       \<le> (\<Sum>k\<in>{k \<in> fst ` set kvs. c' k}. the (map_of kvs k))"
proof (rule sum_mono2)
  show "finite {k \<in> fst ` set kvs. c' k}" by simp
  show "{k \<in> fst ` set kvs. c k} \<subseteq> {k \<in> fst ` set kvs. c' k}" using assms(3) by blast
  fix b assume "b \<in> {k \<in> fst ` set kvs. c' k} - {k \<in> fst ` set kvs. c k}"
  then have "b \<in> fst ` set kvs" by blast
  then have "the (map_of kvs b) \<in> set (map snd kvs)" using assms(1) by (rule weight_of_key[rotated])
  then show "0 \<le> the (map_of kvs b)" using assms(2) by (auto simp: list_all_iff)
qed

lemma event_length_le: "length (get_matching_event c (PySet xs)) \<le> length xs"
proof -
  have "length (remdups (filter c xs)) \<le> length (filter c xs)"
    by (rule length_remdups_leq)
  also have "\<dots> \<le> length xs"
    by (rule length_filter_le)
  finally show ?thesis
    by (simp add: get_matching_event_def py_set_def)
qed

lemma event_measure_bounds:
  fixes kvs :: "('a \<times> int) list"
  assumes "distinct (map fst kvs)" "list_all (\<lambda>w. 0 < w) (map snd kvs)"
  shows "0 \<le> (\<Sum>k\<in>{k \<in> fst ` set kvs. c k}. the (map_of kvs k))"
    and "(\<Sum>k\<in>{k \<in> fst ` set kvs. c k}. the (map_of kvs k)) \<le> sum_list (map snd kvs)"
proof -
  let ?m = "\<lambda>c. \<Sum>k\<in>{k \<in> fst ` set kvs. c k}. the (map_of kvs k)"
  have "?m (\<lambda>_. False) \<le> ?m c"
    using assms by (rule event_measure_mono) simp
  then show "0 \<le> ?m c"
    by simp
  have "?m c \<le> ?m (\<lambda>_. True)"
    using assms by (rule event_measure_mono) simp
  then show "?m c \<le> sum_list (map snd kvs)"
    using assms(1) by (simp add: sum_list_values)
qed

text \<open>
  Claim C1. On a non-empty set of unique outcomes the probability is the number
  of outcomes satisfying the condition divided by the number of outcomes; on a
  non-empty mapping from unique outcomes to positive weights it is the sum of the
  weights of the keys satisfying the condition divided by the sum of all weights.
\<close>

theorem compute_event_probability_formula:
  "(distinct xs \<and> xs \<noteq> [] \<longrightarrow>
      compute_event_probability c (PySet xs) =
        Inr (of_nat (card {x \<in> set xs. c x}) / of_nat (card (set xs)))) \<and>
   (distinct (map fst kvs) \<and> kvs \<noteq> [] \<and> list_all (\<lambda>w. 0 < w) (map snd kvs) \<longrightarrow>
      compute_event_probability c (PyDict kvs) =
        Inr (of_int (\<Sum>k\<in>{k \<in> fst ` set kvs. c k}. the (map_of kvs k)) /
             of_int (\<Sum>k\<in>fst ` set kvs. the (map_of kvs k))))"
proof (intro conjI impI)
  assume a: "distinct xs \<and> xs \<noteq> []"
  have "true_div (int (length (get_matching_event c (PySet xs)))) (int (length xs))
      = Inr (of_int (int (length (get_matching_event c (PySet xs)))) / of_int (int (length xs)))"
    using a event_length_le [of c xs] by (intro true_div_fraction) simp_all
  then show "compute_event_probability c (PySet xs) =
      Inr (of_nat (card {x \<in> set xs. c x}) / of_nat (card (set xs)))"
    using a by (simp add: cep_set event_length_set distinct_card)
next
  assume a: "distinct (map fst kvs) \<and> kvs \<noteq> [] \<and> list_all (\<lambda>w. 0 < w) (map snd kvs)"
  let ?m = "\<Sum>k\<in>{k \<in> fst ` set kvs. c k}. the (map_of kvs k)"
  have "0 < sum_list (map snd kvs)"
    using a by (simp add: positive_total)
  moreover have "0 \<le> ?m" and "?m \<le> sum_list (map snd kvs)"
    using a by (simp_all add: event_measure_bounds)
  ultimately have "true_div ?m (sum_list (map snd kvs))
      = Inr (of_int ?m / of_int (sum_list (map snd kvs)))"
    by (intro true_div_fraction)
  moreover have "sum_list (map snd kvs) = (\<Sum>k\<in>fst ` set kvs. the (map_of kvs k))"
    using a by (simp add: sum_list_values)
  ultimately show "compute_event_probability c (PyDict kvs) =
      Inr (of_int (\<Sum>k\<in>{k \<in> fst ` set kvs. c k}. the (map_of kvs k)) /
           of_int (\<Sum>k\<in>fst ` set kvs. the (map_of kvs k)))"
    by (simp add: cep_dict)
qed

theorem compute_event_probability_formula_witness:
  "compute_event_probability (\<lambda>outcome. outcome = ''Heads'') (PySet [''Heads'', ''Tails''])
     = Inr (1 / 2) \<and>
   compute_event_probability (\<lambda>outcome. outcome = ''Heads'')
     (PyDict [(''Heads'', 4), (''Tails'', 1)]) = Inr (4 / 5)"
proof -
  have s: "{x \<in> set [''Heads'', ''Tails'']. x = ''Heads''} = {''Heads''}"
    by auto
  have d: "{k \<in> fst ` set [(''Heads'', 4::int), (''Tails'', 1)]. k = ''Heads''} = {''Heads''}"
    by auto
  show ?thesis
    using compute_event_probability_formula
      [of "[''Heads'', ''Tails'']" "\<lambda>outcome. outcome = ''Heads''"
          "[(''Heads'', 4), (''Tails'', 1)]"]
    unfolding s d by simp
qed

lemma event_partition:
  "finite A \<Longrightarrow> (\<Sum>k\<in>{k \<in> A. c k}. f k) + (\<Sum>k\<in>{k \<in> A. \<not> c k}. f k) = (\<Sum>k\<in>A. (f k :: int))"
proof -
  assume fin: "finite A"
  have "(\<Sum>k\<in>{k \<in> A. c k}. f k) + (\<Sum>k\<in>{k \<in> A. \<not> c k}. f k)
      = (\<Sum>k\<in>{k \<in> A. c k} \<union> {k \<in> A. \<not> c k}. f k)"
    using fin by (intro sum.union_disjoint [symmetric]) auto
  also have "{k \<in> A. c k} \<union> {k \<in> A. \<not> c k} = A" by blast
  finally show ?thesis .
qed

lemma length_event_partition:
  "length (get_matching_event c (PySet xs)) + length (get_matching_event (\<lambda>x. \<not> c x) (PySet xs))
     = card (set xs)"
proof -
  have "length (get_matching_event c (PySet xs)) = card {x \<in> set xs. c x}"
    by (metis distinct_card distinct_get_matching_event set_get_matching_event iterate.simps(1))
  moreover have "length (get_matching_event (\<lambda>x. \<not> c x) (PySet xs)) = card {x \<in> set xs. \<not> c x}"
    by (metis distinct_card distinct_get_matching_event set_get_matching_event iterate.simps(1))
  moreover have "card {x \<in> set xs. c x} + card {x \<in> set xs. \<not> c x} = card (set xs)"
    using event_partition [where A = "set xs" and c = c and f = "\<lambda>_. 1"] by simp
  ultimately show ?thesis by simp
qed

lemma true_div_complement:
  assumes "a + b = t" and "0 \<le> a" and "0 \<le> b" and "0 < t"
  shows "\<exists>p q. true_div a t = Inr p \<and> true_div b t = Inr q \<and> p + q = 1"
proof -
  have "(of_int a :: rat) / of_int t + of_int b / of_int t = (of_int a + of_int b) / of_int t"
    by (simp only: add_divide_distrib)
  also have "(of_int a :: rat) + of_int b = of_int t"
    using assms(1) by (simp only: of_int_add [symmetric])
  also have "(of_int t :: rat) / of_int t = 1"
    using assms(4) by simp
  finally have "(of_int a :: rat) / of_int t + of_int b / of_int t = 1" .
  moreover have "true_div a t = Inr (of_int a / of_int t)"
    using assms by (intro true_div_fraction) simp_all
  moreover have "true_div b t = Inr (of_int b / of_int t)"
    using assms by (intro true_div_fraction) simp_all
  ultimately show ?thesis
    by simp
qed

text \<open>
  Claim C5. Over a non-empty sample space, the probabilities of a condition and
  of its negation are both defined and add up to exactly 1.
\<close>

theorem complement_rule:
  assumes "valid_space sp" and "iterate sp \<noteq> []"
  shows "\<exists>p q. compute_event_probability c sp = Inr p \<and>
               compute_event_probability (\<lambda>outcome. \<not> c outcome) sp = Inr q \<and>
               p + q = 1"
proof (cases sp)
  case (PySet xs)
  with assms have xs: "distinct xs" "xs \<noteq> []" by simp_all
  have "int (length (get_matching_event c (PySet xs))) +
        int (length (get_matching_event (\<lambda>x. \<not> c x) (PySet xs))) = int (length xs)"
    using length_event_partition [of c xs] xs(1) by (simp add: distinct_card)
  moreover have "0 < int (length xs)"
    using xs(2) by simp
  ultimately show ?thesis
    unfolding PySet cep_set by (intro true_div_complement) simp_all
next
  case (PyDict kvs)
  with assms have kvs: "distinct (map fst kvs)" "kvs \<noteq> []" "list_all (\<lambda>w. 0 < w) (map snd kvs)"
    by simp_all
  let ?f = "\<lambda>k. the (map_of kvs k)"
  have "0 < sum_list (map snd kvs)"
    using kvs(2,3) by (rule positive_total)
  moreover have "(\<Sum>k\<in>{k \<in> fst ` set kvs. c k}. ?f k) + (\<Sum>k\<in>{k \<in> fst ` set kvs. \<not> c k}. ?f k)
      = sum_list (map snd kvs)"
    using kvs(1) by (simp add: event_partition sum_list_values)
  moreover have "0 \<le> (\<Sum>k\<in>{k \<in> fst ` set kvs. c k}. ?f k)"
    using kvs(1,3) by (rule event_measure_bounds)
  moreover have "0 \<le> (\<Sum>k\<in>{k \<in> fst ` set kvs. \<not> c k}. ?f k)"
    using kvs(1,3) by (rule event_measure_bounds)
  ultimately show ?thesis
    unfolding PyDict cep_dict by (intro true_div_complement)
qed

theorem complement_rule_witness:
  "\<exists>p q. compute_event_probability (\<lambda>outcome. outcome = ''Heads'')
             (PyDict [(''Heads'', 4), (''Tails'', 1)]) = Inr p \<and>
         compute_event_probability (\<lambda>outcome. \<not> outcome = ''Heads'')
             (PyDict [(''Heads'', 4), (''Tails'', 1)]) = Inr q \<and>
         p + q = 1"
  using complement_rule [of "PyDict [(''Heads'', 4), (''Tails'', 1)]" "\<lambda>outcome. outcome = ''Heads''"]
  by simp

lemma cep_as_quotient:
  assumes "valid_space sp" and "iterate sp \<noteq> []" and imp: "\<And>k. c k \<Longrightarrow> c' k"
  shows "\<exists>a b t. compute_event_probability c sp = true_div a t \<and>
                 compute_event_probability c' sp = true_div b t \<and>
                 0 \<le> a \<and> a \<le> b \<and> b \<le> t \<and> 0 < t"
proof (cases sp)
  case (PySet xs)
  with assms have xs: "distinct xs" "xs \<noteq> []" by simp_all
  have "card {x \<in> set xs. c x} \<le> card {x \<in> set xs. c' x}"
    using imp by (intro card_mono) auto
  moreover have "card {x \<in> set xs. c' x} \<le> card (set xs)"
    by (intro card_mono) auto
  ultimately have "int (length (get_matching_event c (PySet xs)))
        \<le> int (length (get_matching_event c' (PySet xs)))"
    and "int (length (get_matching_event c' (PySet xs))) \<le> int (length xs)"
    using xs(1) by (simp_all add: event_length_set distinct_card)
  moreover have "0 < int (length xs)"
    using xs(2) by simp
  ultimately show ?thesis
    unfolding PySet cep_set by (intro exI conjI) (rule refl, rule refl, simp_all)
next
  case (PyDict kvs)
  with assms have kvs: "distinct (map fst kvs)" "kvs \<noteq> []" "list_all (\<lambda>w. 0 < w) (map snd kvs)"
    by simp_all
  let ?m = "\<lambda>c. \<Sum>k\<in>{k \<in> fst ` set kvs. c k}. the (map_of kvs k)"
  have "?m (\<lambda>_. False) \<le> ?m c"
    using kvs(1,3) by (rule event_measure_mono) simp
  then have "0 \<le> ?m c"
    by simp
  moreover have "?m c \<le> ?m c'"
    using kvs(1,3) imp by (rule event_measure_mono)
  moreover have "?m c' \<le> ?m (\<lambda>_. True)"
    using kvs(1,3) by (rule event_measure_mono) simp
  then have "?m c' \<le> sum_list (map snd kvs)"
    using kvs(1) by (simp add: sum_list_values)
  moreover have "0 < sum_list (map snd kvs)"
    using kvs(2,3) by (rule positive_total)
  ultimately show ?thesis
    unfolding PyDict cep_dict by (intro exI conjI) (rule refl, rule refl, simp_all)
qed

lemma true_div_bounds:
  assumes "0 \<le> a" "a \<le> b" "b \<le> t" "0 < t"
  shows "\<exists>p q. true_div a t = Inr p \<and> true_div b t = Inr q \<and> 0 \<le> p \<and> p \<le> q \<and> q \<le> 1"
proof -
  have "(of_int a :: rat) / of_int t \<le> of_int b / of_int t"
    using assms by (intro divide_right_mono) simp_all
  moreover have "(of_int b :: rat) / of_int t \<le> 1"
    using assms by simp
  moreover have "0 \<le> (of_int a :: rat) / of_int t"
    using assms by simp
  moreover have "true_div a t = Inr (of_int a / of_int t)"
    using assms by (intro true_div_fraction) simp_all
  moreover have "true_div b t = Inr (of_int b / of_int t)"
    using assms by (intro true_div_fraction) simp_all
  ultimately show ?thesis
    by simp
qed

lemma cep_total_measure:
  "\<exists>m. compute_event_probability c sp = true_div m (total_measure sp)"
  by (cases sp) (auto simp: cep_set cep_dict)

text \<open>
  Claim C3. Over a space of total measure zero (the empty set, or a mapping whose
  weights sum to zero) the computation fails with \<open>ZeroDivisionError\<close>, which
  is its result (nothing catches it); over a sample space of positive total
  measure it returns a value.
\<close>

theorem zero_measure_fails:
  "(total_measure sp = 0 \<longrightarrow> compute_event_probability c sp = Inl ZeroDivisionError) \<and>
   (valid_space sp \<and> 0 < total_measure sp \<longrightarrow> (\<exists>p. compute_event_probability c sp = Inr p))"
proof (intro conjI impI)
  assume "total_measure sp = 0"
  then show "compute_event_probability c sp = Inl ZeroDivisionError"
    using cep_total_measure [of c sp] by (auto simp: true_div_zero)
next
  assume a: "valid_space sp \<and> 0 < total_measure sp"
  then have "iterate sp \<noteq> []"
    by (cases sp) auto
  with a obtain m b t where "compute_event_probability c sp = true_div m t"
      and "0 \<le> m" "m \<le> b" "b \<le> t" "0 < t"
    using cep_as_quotient [of sp c c] by auto
  then show "\<exists>p. compute_event_probability c sp = Inr p"
    using true_div_bounds [of m m t] by auto
qed

theorem zero_measure_fails_witness:
  "compute_event_probability (\<lambda>outcome. outcome = ''Heads'') (PySet []) = Inl ZeroDivisionError \<and>
   compute_event_probability (\<lambda>outcome. outcome = ''Heads'') (PyDict []) = Inl ZeroDivisionError \<and>
   compute_event_probability (\<lambda>outcome. outcome = ''Heads'')
      (PyDict [(''Heads'', 0)]) = Inl ZeroDivisionError \<and>
   (\<exists>p. compute_event_probability (\<lambda>outcome. outcome = ''Heads'')
      (PySet [''Heads'', ''Tails'']) = Inr p) \<and>
   (\<exists>p. compute_event_probability (\<lambda>outcome. outcome = ''Heads'')
      (PyDict [(''Heads'', 4), (''Tails'', 1)]) = Inr p)"
  using zero_measure_fails [of "PySet []" "\<lambda>outcome. outcome = ''Heads''"]
    zero_measure_fails [of "PyDict []" "\<lambda>outcome. outcome = ''Heads''"]
    zero_measure_fails [of "PyDict [(''Heads'', 0)]" "\<lambda>outcome. outcome = ''Heads''"]
    zero_measure_fails [of "PySet [''Heads'', ''Tails'']" "\<lambda>outcome. outcome = ''Heads''"]
    zero_measure_fails [of "PyDict [(''Heads'', 4), (''Tails'', 1)]" "\<lambda>outcome. outcome = ''Heads''"]
  by simp

text \<open>
  The hypothesis on the weights is needed. A mapping with a negative weight is
  not a sample space, and the quotient of an event of such a mapping can exceed
  every double although the total measure is positive.
\<close>

lemma negative_weight_overflow:
  "total_measure (PyDict [(1::int, 10 ^ 309), (2, 1 - 10 ^ 309)]) = 1 \<and>
   compute_event_probability (\<lambda>outcome. outcome = 1)
     (PyDict [(1::int, 10 ^ 309), (2, 1 - 10 ^ 309)]) = Inl OverflowError"
proof -
  have "{k \<in> fst ` set [(1::int, 10 ^ 309 :: int), (2, 1 - 10 ^ 309)]. k = 1} = {1}"
    by auto
  moreover have "float_overflow \<le> 10 ^ 309"
    by (simp add: float_overflow_def)
  ultimately show ?thesis
    by (simp add: cep_dict true_div_def)
qed

text \<open>
  Claim C7. Over a non-empty sample space (a set, or a mapping with positive
  integer weights) the probability of any condition is defined and lies between
  0 and 1.
\<close>

theorem probability_in_unit_interval:
  assumes "valid_space sp" and "iterate sp \<noteq> []"
  shows "\<exists>p. compute_event_probability c sp = Inr p \<and> 0 \<le> p \<and> p \<le> 1"
proof -
  obtain a b t where "compute_event_probability c sp = true_div a t"
      and "0 \<le> a" "a \<le> b" "b \<le> t" "0 < t"
    using cep_as_quotient [OF assms, of c c] by auto
  then show ?thesis
    using true_div_bounds [of a a t] by auto
qed

theorem probability_in_unit_interval_witness:
  "\<exists>p. compute_event_probability (\<lambda>outcome. outcome = ''Heads'')
          (PyDict [(''Heads'', 4), (''Tails'', 1)]) = Inr p \<and> 0 \<le> p \<and> p \<le> 1"
  using probability_in_unit_interval
    [of "PyDict [(''Heads'', 4), (''Tails'', 1)]" "\<lambda>outcome. outcome = ''Heads''"]
  by simp

text \<open>
  Claim C6. \<open>is_in_interval\<close> holds of a value exactly when it lies between the
  two bounds, both included, and over a non-empty sample space of integers the
  probability of the interval widened by one at each end is at least the
  probability of the interval.
\<close>

theorem widening_interval_monotone:
  assumes "valid_space sp" and "iterate sp \<noteq> []"
  shows "(is_in_interval v lo hi \<longleftrightarrow> lo \<le> v \<and> v \<le> hi) \<and>
         (\<exists>p q. compute_event_probability (\<lambda>x. is_in_interval x lo hi) sp = Inr p \<and>
                compute_event_probability (\<lambda>x. is_in_interval x (lo - 1) (hi + 1)) sp = Inr q \<and>
                p \<le> q)"
proof -
  have "\<And>x. is_in_interval x lo hi \<Longrightarrow> is_in_interval x (lo - 1) (hi + 1)"
    by (simp add: is_in_interval_def)
  then obtain a b t
    where "compute_event_probability (\<lambda>x. is_in_interval x lo hi) sp = true_div a t"
      and "compute_event_probability (\<lambda>x. is_in_interval x (lo - 1) (hi + 1)) sp = true_div b t"
      and "0 \<le> a" "a \<le> b" "b \<le> t" "0 < t"
    using cep_as_quotient [OF assms, of "\<lambda>x. is_in_interval x lo hi"
        "\<lambda>x. is_in_interval x (lo - 1) (hi + 1)"] by auto
  then show ?thesis
    using true_div_bounds [of a b t] by (auto simp: is_in_interval_def)
qed

theorem widening_interval_monotone_witness:
  "\<exists>p q. compute_event_probability (\<lambda>x. is_in_interval x 2 3) (PySet [1, 2, 3, 4, 5, 6]) = Inr p \<and>
         compute_event_probability (\<lambda>x. is_in_interval x (2 - 1) (3 + 1)) (PySet [1, 2, 3, 4, 5, 6]) = Inr q \<and>
         p \<le> q"
  using widening_interval_monotone [of "PySet [1, 2, 3, 4, 5, 6]" 0 2 3]
  by simp

section \<open>Observed frequencies\<close>

text \<open>
  Claim C10. On a non-empty sequence of flips \<open>frequency_heads\<close> returns the
  number of elements equal to 1 divided by the length of the sequence, a value
  between 0 and 1; on the empty sequence it fails with \<open>ZeroDivisionError\<close>.
\<close>

theorem frequency_heads_value:
  "frequency_heads [] = Inl ZeroDivisionError \<and>
   (flips \<noteq> [] \<longrightarrow>
      frequency_heads flips = Inr (of_nat (count_list flips 1) / of_nat (length flips)) \<and>
      0 \<le> (of_nat (count_list flips 1) / of_nat (length flips) :: rat) \<and>
      (of_nat (count_list flips 1) / of_nat (length flips) :: rat) \<le> 1)"
proof -
  have c: "length (filter (\<lambda>head. head = 1) flips) = count_list flips 1"
    by (induction flips) auto
  have "count_list flips 1 \<le> length flips"
    by (rule count_le_length)
  then have le: "flips \<noteq> [] \<Longrightarrow> (of_nat (count_list flips 1) / of_nat (length flips) :: rat) \<le> 1"
    by simp
  have "flips \<noteq> [] \<Longrightarrow> true_div (int (count_list flips 1)) (int (length flips))
      = Inr (of_int (int (count_list flips 1)) / of_int (int (length flips)))"
    using count_le_length [of flips 1] by (intro true_div_fraction) simp_all
  then show ?thesis
    using le by (auto simp: frequency_heads_def true_div_zero c)
qed

theorem frequency_heads_value_witness:
  "frequency_heads [1, 0, 1, 1] = Inr (3 / 4) \<and> frequency_heads [] = Inl ZeroDivisionError"
  using frequency_heads_value [of "[1, 0, 1, 1]"] by simp

section \<open>Counting loops and the coin sample space\<close>

lemma map_of_setitem: "map_of (setitem d k v) = (map_of d)(k \<mapsto> v)"
  by (induction d k v rule: setitem.induct) auto

lemma keys_setitem: "fst ` set (setitem d k v) = insert k (fst ` set d)"
  by (induction d k v rule: setitem.induct) auto

lemma distinct_setitem: "distinct (map fst d) \<Longrightarrow> distinct (map fst (setitem d k v))"
  by (induction d k v rule: setitem.induct) (auto simp: keys_setitem)

lemma sum_setitem:
  "sum_list (map snd (setitem d k v)) = sum_list (map snd d) - getitem_default d k + v"
  by (induction d k v rule: setitem.induct) (auto simp: getitem_default_def)

lemma getitem_default_increment:
  "getitem_default (increment d k) k' = getitem_default d k' + (if k' = k then 1 else 0)"
  by (simp add: increment_def getitem_default_def map_of_setitem)

lemma keys_increment: "fst ` set (increment d k) = insert k (fst ` set d)"
  by (simp add: increment_def keys_setitem)

lemma distinct_increment: "distinct (map fst d) \<Longrightarrow> distinct (map fst (increment d k))"
  by (simp add: increment_def distinct_setitem)

lemma sum_increment: "sum_list (map snd (increment d k)) = sum_list (map snd d) + 1"
  by (simp add: increment_def sum_setitem)

text \<open>The counting loop \<^verbatim>\<open>for x in xs: d[f(x)] += 1\<close>.\<close>

lemma counting_loop_value:
  "getitem_default (fold (\<lambda>x d. increment d (f x)) xs d) k
     = getitem_default d k + int (count_list (map f xs) k)"
  by (induction xs arbitrary: d) (auto simp: getitem_default_increment)

lemma counting_loop_keys:
  "fst ` set (fold (\<lambda>x d. increment d (f x)) xs d) = fst ` set d \<union> f ` set xs"
  by (induction xs arbitrary: d) (auto simp: keys_increment)

lemma counting_loop_distinct:
  "distinct (map fst d) \<Longrightarrow> distinct (map fst (fold (\<lambda>x d. increment d (f x)) xs d))"
  by (induction xs arbitrary: d) (auto simp: distinct_increment)

lemma counting_loop_sum:
  "sum_list (map snd (fold (\<lambda>x d. increment d (f x)) xs d)) = sum_list (map snd d) + int (length xs)"
  by (induction xs arbitrary: d) (auto simp: sum_increment)

lemma counting_loop_map_of:
  "map_of (fold (\<lambda>x d. increment d (f x)) xs []) k
     = (if k \<in> f ` set xs then Some (int (count_list (map f xs) k)) else None)"
proof -
  let ?W = "fold (\<lambda>x d. increment d (f x)) xs []"
  have keys: "fst ` set ?W = f ` set xs"
    by (simp add: counting_loop_keys)
  have val: "getitem_default ?W k = int (count_list (map f xs) k)"
    using counting_loop_value [of f xs "[]" k] by (simp add: getitem_default_def)
  show ?thesis
  proof (cases "k \<in> f ` set xs")
    case True
    then have "map_of ?W k \<noteq> None"
      using keys by (simp add: map_of_eq_None_iff)
    then show ?thesis
      using val True by (auto simp: getitem_default_def)
  next
    case False
    then have "map_of ?W k = None"
      using keys by (simp add: map_of_eq_None_iff)
    then show ?thesis
      using False by simp
  qed
qed

text \<open>Sequences of flips.\<close>

lemma product_repeat_0: "product_repeat xs 0 = [[]]"
  by (simp add: product_repeat_def)

lemma product_repeat_Suc:
  "product_repeat xs (Suc n) = concat (map (\<lambda>x. map (Cons x) (product_repeat xs n)) xs)"
  by (simp add: product_repeat_def)

lemma length_concat_Cons:
  "length (concat (map (\<lambda>x. map (Cons x) ys) xs)) = length xs * length ys"
  by (induction xs) simp_all

lemma length_product_repeat: "length (product_repeat xs n) = length xs ^ n"
  by (induction n) (simp_all add: product_repeat_0 product_repeat_Suc length_concat_Cons)

lemma distinct_product_repeat: "distinct xs \<Longrightarrow> distinct (product_repeat xs n)"
  unfolding product_repeat_def by (rule distinct_product_lists) simp

lemma count_heads_Cons_Heads:
  "count_list (map (\<lambda>flips. length (filter (\<lambda>outcome. outcome = ''Heads'') flips))
                  (map (Cons ''Heads'') ys)) k
     = (case k of 0 \<Rightarrow> 0
        | Suc j \<Rightarrow> count_list (map (\<lambda>flips. length (filter (\<lambda>outcome. outcome = ''Heads'') flips)) ys) j)"
  by (induction ys) (auto split: nat.splits)

lemma count_heads_Cons_Tails:
  "count_list (map (\<lambda>flips. length (filter (\<lambda>outcome. outcome = ''Heads'') flips))
                  (map (Cons ''Tails'') ys)) k
     = count_list (map (\<lambda>flips. length (filter (\<lambda>outcome. outcome = ''Heads'') flips)) ys) k"
  by (induction ys) auto

lemma count_heads:
  "count_list (map (\<lambda>flips. length (filter (\<lambda>outcome. outcome = ''Heads'') flips))
                  (product_repeat [''Heads'', ''Tails''] n)) k = n choose k"
proof (induction n arbitrary: k)
  case 0
  show ?case by (cases k) (simp_all add: product_repeat_0)
next
  case (Suc n)
  let ?h = "\<lambda>flips. length (filter (\<lambda>outcome. outcome = ''Heads'') flips)"
  let ?P = "product_repeat [''Heads'', ''Tails''] n"
  show ?case
    by (cases k)
      (simp_all add: product_repeat_Suc count_heads_Cons_Heads count_heads_Cons_Tails Suc.IH
        del: map_map)
qed

lemma count_heads_count:
  "count_list (map heads_count (product_repeat [''Heads'', ''Tails''] n)) k
     = (if 0 \<le> k then n choose nat k else 0)"
proof -
  let ?h = "\<lambda>flips. length (filter (\<lambda>outcome. outcome = ''Heads'') flips)"
  let ?P = "product_repeat [''Heads'', ''Tails''] n"
  have m: "map heads_count ?P = map int (map ?h ?P)"
    by (simp add: heads_count_def)
  show ?thesis
  proof (cases "0 \<le> k")
    case True
    then have "count_list (map int (map ?h ?P)) k = count_list (map int (map ?h ?P)) (int (nat k))"
      by simp
    also have "\<dots> = count_list (map ?h ?P) (nat k)"
      by (rule count_list_map_conv) simp
    finally show ?thesis
      using True by (simp only: m count_heads if_True)
  next
    case False
    then have "k \<notin> set (map int (map ?h ?P))"
      by auto
    then have "count_list (map int (map ?h ?P)) k = 0"
      by (rule count_notin)
    then show ?thesis
      using False by (simp only: m if_False)
  qed
qed

lemma heads_count_range:
  "k \<in> heads_count ` set (product_repeat [''Heads'', ''Tails''] n) \<longleftrightarrow> 0 \<le> k \<and> k \<le> int n"
proof -
  let ?ys = "map heads_count (product_repeat [''Heads'', ''Tails''] n)"
  have "k \<in> set ?ys \<longleftrightarrow> count_list ?ys k \<noteq> 0"
    by (simp only: count_list_0_iff) simp
  also have "\<dots> \<longleftrightarrow> 0 \<le> k \<and> k \<le> int n"
    by (simp only: count_heads_count) (auto simp: binomial_eq_0_iff not_less)
  finally show ?thesis
    by simp
qed

lemma map_of_generate_coin_sample_space:
  "map_of (generate_coin_sample_space n) k
     = (if 0 \<le> k \<and> k \<le> int n then Some (int (n choose nat k)) else None)"
  unfolding generate_coin_sample_space_def counting_loop_map_of heads_count_range
  by (simp add: count_heads_count)

text \<open>
  Claim C9. For every number of flips \<open>n\<close>, \<open>generate_coin_sample_space n\<close> is a
  mapping whose keys are exactly the head counts 0 to \<open>n\<close>, whose value at \<open>k\<close>
  is the binomial coefficient of \<open>n\<close> over \<open>k\<close> (so 1 at \<open>n\<close>, and \<open>n\<close> at
  \<open>n - 1\<close> when that is a key), and whose values sum to \<open>2 ^ n\<close>.
\<close>

theorem generate_coin_sample_space_binomial:
  "distinct (map fst (generate_coin_sample_space n)) \<and>
   fst ` set (generate_coin_sample_space n) = {0..int n} \<and>
   map_of (generate_coin_sample_space n) k
     = (if 0 \<le> k \<and> k \<le> int n then Some (int (n choose nat k)) else None) \<and>
   map_of (generate_coin_sample_space n) (int n) = Some 1 \<and>
   map_of (generate_coin_sample_space n) (int n - 1) = (if n = 0 then None else Some (int n)) \<and>
   sum_list (map snd (generate_coin_sample_space n)) = 2 ^ n"
proof (intro conjI)
  show "distinct (map fst (generate_coin_sample_space n))"
    unfolding generate_coin_sample_space_def by (rule counting_loop_distinct) simp
  show "fst ` set (generate_coin_sample_space n) = {0..int n}"
  proof -
    have "heads_count ` set (product_repeat [''Heads'', ''Tails''] n) = {0..int n}"
      by (rule set_eqI) (simp only: heads_count_range atLeastAtMost_iff)
    then show ?thesis
      unfolding generate_coin_sample_space_def counting_loop_keys by simp
  qed
  show "map_of (generate_coin_sample_space n) k
     = (if 0 \<le> k \<and> k \<le> int n then Some (int (n choose nat k)) else None)"
    by (rule map_of_generate_coin_sample_space)
  show "map_of (generate_coin_sample_space n) (int n) = Some 1"
    by (simp add: map_of_generate_coin_sample_space)
  show "map_of (generate_coin_sample_space n) (int n - 1) = (if n = 0 then None else Some (int n))"
  proof (cases n)
    case 0
    then show ?thesis by (simp add: map_of_generate_coin_sample_space)
  next
    case (Suc m)
    then have "nat (int n - 1) = m" by simp
    then show ?thesis
      using Suc by (simp add: map_of_generate_coin_sample_space)
  qed
  show "sum_list (map snd (generate_coin_sample_space n)) = 2 ^ n"
    unfolding generate_coin_sample_space_def counting_loop_sum
    by (simp add: length_product_repeat)
qed

theorem generate_coin_sample_space_binomial_witness:
  "map_of (generate_coin_sample_space 10) 10 = Some 1 \<and>
   map_of (generate_coin_sample_space 10) 9 = Some 10 \<and>
   sum_list (map snd (generate_coin_sample_space 10)) = 1024"
  using generate_coin_sample_space_binomial [of 10 0] by simp

lemma generate_coin_sample_space_3: "generate_coin_sample_space 3 = [(3, 1), (2, 3), (1, 3), (0, 1)]"
  by (simp add: generate_coin_sample_space_def product_repeat_def heads_count_def increment_def
      getitem_default_def eval_nat_numeral)

section \<open>Weighted and unweighted spaces agree\<close>

lemma count_list_filter:
  "count_list (filter c ys) k = (if c k then count_list ys k else 0)"
  by (induction ys) auto

lemma histogram_event_size:
  assumes "set ys \<subseteq> K" and "finite K"
  shows "(\<Sum>k\<in>{k \<in> K. c k}. count_list ys k) = length (filter c ys)"
proof -
  have "(\<Sum>k\<in>{k \<in> K. c k}. count_list ys k) = (\<Sum>k\<in>{k \<in> K. c k}. count_list (filter c ys) k)"
    by (rule sum.cong) (simp_all add: count_list_filter)
  also have "\<dots> = length (filter c ys)"
    using assms by (intro sum_count_set) auto
  finally show ?thesis .
qed

text \<open>
  Claim C2. Let a weighted mapping be the histogram of the values that a function
  \<open>f\<close> takes on a set of outcomes: each such value is a key, and the weight of
  every key is the number of outcomes with that value (with \<open>f\<close> the identity:
  the keys are the outcomes themselves, each of weight 1). Then the probability
  of a condition over the mapping is the result of the set-form computation
  with the condition applied to the value of each outcome, failures included.
\<close>

theorem histogram_equivalence:
  assumes "distinct xs" and "distinct (map fst W)"
    and keys: "\<forall>x\<in>set xs. f x \<in> fst ` set W"
    and mult: "\<forall>(k, w)\<in>set W. w = int (count_list (map f xs) k)"
  shows "compute_event_probability c (PyDict W)
       = compute_event_probability (\<lambda>outcome. c (f outcome)) (PySet xs)"
proof -
  let ?K = "fst ` set W"
  have w: "the (map_of W k) = int (count_list (map f xs) k)" if "k \<in> ?K" for k
  proof -
    from that obtain v where "(k, v) \<in> set W" by force
    moreover from this have "map_of W k = Some v"
      using assms(2) by simp
    ultimately show ?thesis
      using mult by auto
  qed
  have sub: "set (map f xs) \<subseteq> ?K"
    using keys by auto
  have "(\<Sum>k\<in>{k \<in> ?K. c k}. the (map_of W k)) = (\<Sum>k\<in>{k \<in> ?K. c k}. int (count_list (map f xs) k))"
    by (rule sum.cong) (simp_all add: w)
  also have "\<dots> = int (\<Sum>k\<in>{k \<in> ?K. c k}. count_list (map f xs) k)"
    by simp
  also have "\<dots> = int (length (filter c (map f xs)))"
    using sub by (simp only: histogram_event_size [of _ ?K] finite_imageI finite_set)
  finally have event: "(\<Sum>k\<in>{k \<in> ?K. c k}. the (map_of W k)) = int (length (filter c (map f xs)))" .
  have "sum_list (map snd W) = (\<Sum>k\<in>?K. the (map_of W k))"
    using assms(2) by (rule sum_list_values)
  also have "\<dots> = (\<Sum>k\<in>?K. int (count_list (map f xs) k))"
    by (rule sum.cong) (simp_all add: w)
  also have "\<dots> = int (\<Sum>k\<in>?K. count_list (map f xs) k)"
    by simp
  also have "\<dots> = int (length (map f xs))"
    using sub by (simp only: sum_count_set [of _ ?K] finite_imageI finite_set)
  finally have total: "sum_list (map snd W) = int (length xs)"
    by simp
  have "length (get_matching_event (\<lambda>outcome. c (f outcome)) (PySet xs))
      = length (filter (\<lambda>outcome. c (f outcome)) xs)"
    using assms(1) by (simp add: get_matching_event_def py_set_def distinct_remdups_id)
  also have "\<dots> = length (filter c (map f xs))"
    by (simp add: filter_map comp_def)
  finally show ?thesis
    by (simp only: cep_set cep_dict event total)
qed

theorem histogram_equivalence_witness:
  "compute_event_probability (\<lambda>total. total = (3::int)) (PyDict [(2, 1), (3, 2), (4, 1)])
     = compute_event_probability (\<lambda>outcome. sum_list outcome = (3::int))
         (PySet [[1, 1], [1, 2], [2, 1], [2, 2]]) \<and>
   compute_event_probability (\<lambda>outcome. outcome = ''Heads'') (PyDict [(''Heads'', 1), (''Tails'', 1)])
     = compute_event_probability (\<lambda>outcome. outcome = ''Heads'') (PySet [''Heads'', ''Tails''])"
  using histogram_equivalence [of "[[1, 1], [1, 2], [2, 1], [2, 2]]" "[(2, 1), (3, 2), (4, 1)]"
      sum_list "\<lambda>total. total = (3::int)"]
    histogram_equivalence [of "[''Heads'', ''Tails'']" "[(''Heads'', 1), (''Tails'', 1)]"
      "\<lambda>outcome. outcome" "\<lambda>outcome. outcome = ''Heads''"]
  by simp

section \<open>Six rolls of a die\<close>

lemma filter_sum_Cons:
  "length (filter ((\<lambda>outcome. sum_list outcome = s) \<circ> Cons d) ys)
     = length (filter (\<lambda>outcome. sum_list outcome = s - d) ys)"
  for s d :: int
  by (induction ys) auto

lemma count_roll_sums:
  "length (filter (\<lambda>outcome. sum_list outcome = s) (product_repeat possible_rolls n)) = roll_sums n s"
  by (induction n arbitrary: s)
    (simp_all add: product_repeat_0 product_repeat_Suc possible_rolls_def filter_sum_Cons)

lemma roll_sums_3: "map (roll_sums 3) [3, 4, 5, 6, 7, 8, 9, 10, 11, 12, 13, 14, 15, 16, 17, 18]
   = [1, 3, 6, 10, 15, 21, 25, 27, 27, 25, 21, 15, 10, 6, 3, 1]"
  by (simp add: eval_nat_numeral)

lemma roll_sums_6_21: "roll_sums 6 21 = 4332"
  by code_simp

lemma die_sample_space_outcomes:
  "die_sample_space = PySet (product_repeat possible_rolls 6)"
proof -
  have "distinct possible_rolls"
    by (simp add: possible_rolls_def)
  then have "distinct (product_repeat possible_rolls 6)"
    by (rule distinct_product_repeat)
  then show ?thesis
    by (simp add: die_sample_space_def py_set_def distinct_remdups_id)
qed

text \<open>
  Claim C8. The space of all sequences of six rolls has 46656 outcomes, 4332 of
  them sum to 21, and the probability computed for \<open>has_sum_of_21\<close> is exactly
  4332 / 46656.
\<close>

theorem die_rolls_sum_21:
  "length (iterate die_sample_space) = 46656 \<and>
   length (get_matching_event has_sum_of_21 die_sample_space) = 4332 \<and>
   compute_event_probability has_sum_of_21 die_sample_space = Inr (4332 / 46656)"
proof -
  let ?P = "product_repeat possible_rolls 6"
  have "length possible_rolls = 6"
    by (simp add: possible_rolls_def)
  then have size: "length ?P = 46656"
    by (simp only: length_product_repeat) simp
  have "distinct possible_rolls"
    by (simp add: possible_rolls_def)
  then have "distinct ?P"
    by (rule distinct_product_repeat)
  then have "length (get_matching_event has_sum_of_21 (PySet ?P)) = length (filter has_sum_of_21 ?P)"
    by (simp add: get_matching_event_def py_set_def distinct_remdups_id)
  also have "filter has_sum_of_21 ?P = filter (\<lambda>outcome. sum_list outcome = 21) ?P"
    by (rule filter_cong) (simp_all add: has_sum_of_21_def)
  also have "length \<dots> = 4332"
    by (simp only: count_roll_sums roll_sums_6_21)
  finally have event: "length (get_matching_event has_sum_of_21 (PySet ?P)) = 4332" .
  have "true_div 4332 46656 = Inr (of_int 4332 / of_int 46656)"
    by (intro true_div_fraction) simp_all
  then show ?thesis
    unfolding die_sample_space_outcomes cep_set event size
    by (simp add: size event)
qed

end
